theory Spec2Isabelle
  imports Complex_Main "HOL-Library.Word" "HOL-Library.Multiset"
begin

unbundle bit_operations_syntax

section \<open>Data model of the dimmer firmware\<close>

text \<open>
  The target is the ATmega328P: \<open>int\<close> and \<open>unsigned int\<close> are 16 bits wide,
  \<open>unsigned char\<close> is 8 bits wide. A 16-bit value is a \<open>16 word\<close>; where the source
  declares it signed (\<open>int\<close>, \<open>int16_t\<close>) it is read with \<open>sint\<close>, where it declares
  it unsigned (\<open>uint16_t\<close>, the timer registers) with the order of the word type.
\<close>

type_synonym u8 = "8 word"
type_synonym u16 = "16 word"
type_synonym int16 = "16 word"

text \<open>
  The globals of the program and the hardware it touches. Arrays of eight entries are
  functions on the index; every read through a computed index is bounds-checked where it
  is made. \<open>pins\<close> is the level of every digital output (\<open>True\<close> is HIGH), \<open>trace\<close>
  the sequence of \<open>digitalWrite\<close> calls made so far. \<open>TCNT1\<close> is the free-running
  counter of timer 1 and \<open>OCR1A\<close> its compare register; a handler is taken to run
  within one counter tick, so all its reads of \<open>TCNT1\<close> see the same value.
\<close>

record state =
  lux :: "nat \<Rightarrow> int16"
  clock_tick :: u8
  delay_time :: u16
  low :: u8
  high :: u8
  off :: u8
  commands :: "nat \<Rightarrow> u16"
  toggly_State :: bool
  next_command :: nat
  previous_zero_cross :: u16
  t :: int16
  TCNT1 :: u16
  OCR1A :: u16
  pins :: "nat \<Rightarrow> bool"
  trace :: "(nat \<times> bool) list"

datatype fault = OutOfBounds

definition pin_assignments :: "nat list" where
  "pin_assignments = [9, 8, 7, 6, 5, 4, 3, 10]"

definition led :: nat where
  "led = 13"

definition digitalWrite :: "nat \<Rightarrow> bool \<Rightarrow> state \<Rightarrow> state" where
  "digitalWrite p v s = s\<lparr>pins := (pins s)(p := v), trace := trace s @ [(p, v)]\<rparr>"

text \<open>The eight channel outputs, in channel order.\<close>

definition channel_levels :: "state \<Rightarrow> bool list" where
  "channel_levels s = map (pins s) pin_assignments"

section \<open>The textual command interface\<close>

text \<open>
  \<open>serialEvent\<close> reads the pending characters one at a time. Each character is one
  command; the printing to the serial port changes no program variable and is left out.
  \<open>delay_time\<close> is an \<open>unsigned int\<close>, \<open>low\<close> and \<open>off\<close> are \<open>unsigned char\<close>: the
  arithmetic wraps.
\<close>

definition serial_command :: "char \<Rightarrow> state \<Rightarrow> state" where
  "serial_command inChar s =
     (if inChar = CHR ''u'' then s\<lparr>delay_time := delay_time s - 10\<rparr>
      else if inChar = CHR ''d'' then s\<lparr>delay_time := delay_time s + 10\<rparr>
      else if inChar = CHR ''l'' then s\<lparr>low := low s - 10\<rparr>
      else if inChar = CHR ''h'' then s\<lparr>low := low s + 10\<rparr>
      else if inChar = CHR ''o'' then s\<lparr>off := off s - 10\<rparr>
      else if inChar = CHR ''f'' then s\<lparr>off := off s + 10\<rparr>
      else s)"

fun serialEvent :: "char list \<Rightarrow> state \<Rightarrow> state" where
  "serialEvent [] s = s"
| "serialEvent (inChar # rest) s = serialEvent rest (serial_command inChar s)"

section \<open>The Schedule Builder: one iteration of \<open>loop\<close>\<close>

text \<open>
  The brightness \<open>x\<close> of a channel is a \<open>float\<close>; the builder evaluates
  \<open>(high + (low - high)*(1-x)) * 166\<close> in \<open>float\<close> arithmetic. \<open>low - high\<close> is an
  \<open>int\<close> subtraction of two promoted \<open>unsigned char\<close>s; it and the constants are
  converted to \<open>float\<close> without error. Each of the four \<open>float\<close> operations delivers its
  exact result rounded to a \<open>float\<close>: \<open>rnd\<close> is that rounding, a parameter of the model.
\<close>

definition fire_tick :: "(real \<Rightarrow> real) \<Rightarrow> u8 \<Rightarrow> u8 \<Rightarrow> real \<Rightarrow> real" where
  "fire_tick rnd lo hi x =
     rnd (rnd (real (unat hi) + rnd (real_of_int (int (unat lo) - int (unat hi)) * rnd (1 - x))) * 166)"

text \<open>
  What is known of the rounding of the platform: it is monotone, and integers of
  magnitude up to \<open>2^24\<close> are \<open>float\<close>s, so rounding leaves them as they are.
\<close>

definition float_rounding :: "(real \<Rightarrow> real) \<Rightarrow> bool" where
  "float_rounding rnd \<longleftrightarrow>
     mono rnd \<and> (\<forall>n::int. \<bar>n\<bar> \<le> 16777216 \<longrightarrow> rnd (real_of_int n) = real_of_int n)"

text \<open>
  The assignment \<open>lux[i] = ...\<close> converts the \<open>float\<close> to \<open>int\<close>: the fraction is
  discarded, and the behaviour is undefined when the result does not fit the 16-bit
  \<open>int\<close> (\<open>None\<close>).
\<close>

definition trunc :: "real \<Rightarrow> int" where
  "trunc r = (if 0 \<le> r then \<lfloor>r\<rfloor> else \<lceil>r\<rceil>)"

definition float_to_int :: "real \<Rightarrow> int16 option" where
  "float_to_int r =
     (if - 32768 \<le> trunc r \<and> trunc r \<le> 32767 then Some (word_of_int (trunc r)) else None)"

text \<open>
  The program does not stop at a conversion that does not fit: it goes on with whatever
  value the conversion routine of the platform delivers there, \<open>ovf r\<close>, a parameter
  of the model. \<open>low16\<close> is the routine that keeps the low 16 bits of the truncated
  value, which is what the conversion through a 32-bit integer of avr-gcc delivers for a
  value that fits 32 bits.
\<close>

definition convert :: "(real \<Rightarrow> int16) \<Rightarrow> real \<Rightarrow> int16" where
  "convert ovf r = (case float_to_int r of Some v \<Rightarrow> v | None \<Rightarrow> ovf r)"

definition low16 :: "real \<Rightarrow> int16" where
  "low16 r = word_of_int (trunc r)"

text \<open>\<open>(lux[i] & ~(0b111)) | i\<close>\<close>

definition pack :: "int16 \<Rightarrow> nat \<Rightarrow> int16" where
  "pack l i = (l AND NOT 7) OR of_nat i"

text \<open>
  The first loop of the builder, over the channels \<open>is\<close> still to do: it stores
  \<open>lux[i]\<close> and \<open>newcommands[i]\<close>.
\<close>

fun fill :: "(real \<Rightarrow> int16) \<Rightarrow> (real \<Rightarrow> real) \<Rightarrow> (nat \<Rightarrow> real) \<Rightarrow> u8 \<Rightarrow> u8 \<Rightarrow> nat list \<Rightarrow>
    (nat \<Rightarrow> int16) \<times> int16 list \<Rightarrow> (nat \<Rightarrow> int16) \<times> int16 list" where
  "fill ovf rnd x lo hi [] acc = acc"
| "fill ovf rnd x lo hi (i # is) (lx, nc) =
     (let v = convert ovf (fire_tick rnd lo hi (x i))
      in fill ovf rnd x lo hi is (lx(i := v), nc[i := pack v i]))"

text \<open>
  The selection sort of \<open>newcommands\<close>. The inner loop keeps \<open>(min, min_index)\<close>; the
  comparison is one of \<open>int16_t\<close> values, hence signed.
\<close>

definition min_step :: "int16 list \<Rightarrow> int16 \<times> nat \<Rightarrow> nat \<Rightarrow> int16 \<times> nat" where
  "min_step xs = (\<lambda>(m, mi) j. if sint (xs ! j) < sint m then (xs ! j, j) else (m, mi))"

definition find_min :: "int16 list \<Rightarrow> nat \<Rightarrow> int16 \<times> nat" where
  "find_min xs i = foldl (min_step xs) (xs ! i, i) [i + 1 ..< 8]"

definition sort_step :: "int16 list \<Rightarrow> nat \<Rightarrow> int16 list" where
  "sort_step xs i =
     (let mi = snd (find_min xs i); temp = xs ! i
      in (xs[i := xs ! mi])[mi := temp])"

definition sort_newcommands :: "int16 list \<Rightarrow> int16 list" where
  "sort_newcommands xs = foldl sort_step xs [0 ..< 8]"

text \<open>The copy of \<open>newcommands\<close> into \<open>commands\<close>.\<close>

definition publish :: "int16 list \<Rightarrow> (nat \<Rightarrow> u16) \<Rightarrow> (nat \<Rightarrow> u16)" where
  "publish nc c = foldl (\<lambda>c i. c(i := nc ! i)) c [0 ..< 8]"

definition schedule :: "(real \<Rightarrow> int16) \<Rightarrow> (real \<Rightarrow> real) \<Rightarrow> (nat \<Rightarrow> real) \<Rightarrow> state \<Rightarrow> state" where
  "schedule ovf rnd x s =
     (case fill ovf rnd x (low s) (high s) [0 ..< 8] (lux s, replicate 8 0) of
        (lx, nc) \<Rightarrow> s\<lparr>lux := lx, commands := publish (sort_newcommands nc) (commands s)\<rparr>)"

text \<open>
  One iteration of \<open>loop\<close> in which the brightness of channel \<open>i\<close> is \<open>x i\<close>; \<open>in1\<close>
  and \<open>in2\<close> are the characters pending at the two calls of \<open>serialEvent\<close>.
\<close>

definition loop :: "(real \<Rightarrow> int16) \<Rightarrow> (real \<Rightarrow> real) \<Rightarrow> (nat \<Rightarrow> real) \<Rightarrow> char list \<Rightarrow> char list \<Rightarrow>
    state \<Rightarrow> state" where
  "loop ovf rnd x in1 in2 s =
     (let s1 = serialEvent in1 s;
          s2 = s1\<lparr>t := (if 1024 \<le> sint (t s1 + 1) then 0 else t s1 + 1)\<rparr>
      in serialEvent in2 (schedule ovf rnd x s2))"





text \<open>The contents of \<open>newcommands\<close> before the sort, for the values of \<open>lux\<close>.\<close>

definition packed :: "(nat \<Rightarrow> int16) \<Rightarrow> int16 list" where
  "packed lx = map (\<lambda>i. pack (lx i) i) [0 ..< 8]"

text \<open>
  The invariant of the outer loop of the sort after \<open>k\<close> rounds: every entry below
  \<open>k\<close> is at most every later entry.
\<close>

definition sorted_upto :: "nat \<Rightarrow> int16 list \<Rightarrow> bool" where
  "sorted_upto k ys \<longleftrightarrow> (\<forall>a b. a < k \<and> a < b \<and> b < 8 \<longrightarrow> sint (ys ! a) \<le> sint (ys ! b))"

text \<open>
  The published FiringQueue, and the two parts of an entry: the channel in the low three
  bits, the tick in the upper thirteen.
\<close>

definition queue :: "state \<Rightarrow> u16 list" where
  "queue s = map (commands s) [0 ..< 8]"

definition channel_of :: "u16 \<Rightarrow> nat" where
  "channel_of c = unat (c AND 7)"


section \<open>The Event Dispatcher: \<open>ISR(TIMER1_COMPA_vect)\<close>\<close>

text \<open>
  The \<open>while\<close> loop of the handler. \<open>commands\<close> has eight entries: a read at an index
  of 8 or more is outside the array (\<open>OutOfBounds\<close>). \<open>TCNT1+64\<close> is unsigned 16-bit
  arithmetic.
\<close>

function isr_fire :: "state \<Rightarrow> fault + state" where
  "isr_fire s =
     (if next_command s < 8 then
        (if commands s (next_command s) \<le> TCNT1 s + 64 then
           (let s' = (digitalWrite (pin_assignments ! channel_of (commands s (next_command s))) True s)
                       \<lparr>next_command := next_command s + 1\<rparr>
            in if 8 \<le> next_command s' then Inr s' else isr_fire s')
         else Inr s)
      else Inl OutOfBounds)"
  by pat_completeness auto
termination
  by (relation "measure (\<lambda>s. 8 - next_command s)") (auto simp: digitalWrite_def)

declare isr_fire.simps [simp del]

text \<open>The \<open>for\<close> loop that ends the pulses of this batch, \<open>first_command \<le> i < next_command\<close>.\<close>

definition isr_release :: "nat \<Rightarrow> state \<Rightarrow> state" where
  "isr_release first_command s =
     foldl (\<lambda>s i. digitalWrite (pin_assignments ! channel_of (commands s i)) False s) s
       [first_command ..< next_command s]"

definition ISR_TIMER1_COMPA :: "state \<Rightarrow> fault + state" where
  "ISR_TIMER1_COMPA s =
     (let s0 = digitalWrite led (next_command s mod 2 = 0) s;
          first_command = next_command s0
      in case isr_fire s0 of
           Inl e \<Rightarrow> Inl e
         | Inr s1 \<Rightarrow>
             (let s2 = isr_release first_command s1
              in if next_command s2 < 8
                 then Inr (s2\<lparr>OCR1A := commands s2 (next_command s2)\<rparr>)
                 else Inl OutOfBounds))"

section \<open>The polling handler \<open>timerIsr\<close>\<close>

text \<open>
  \<open>lux[i] <= clock_tick\<close> compares an \<open>int\<close> with a promoted \<open>unsigned char\<close>.
\<close>

definition all_off :: "state \<Rightarrow> state" where
  "all_off s = foldl (\<lambda>s i. digitalWrite (pin_assignments ! i) False s) s [0 ..< 8]"

definition drive_due :: "bool \<Rightarrow> state \<Rightarrow> state" where
  "drive_due v s =
     foldl (\<lambda>s i. if sint (lux s i) \<le> uint (clock_tick s)
                   then digitalWrite (pin_assignments ! i) v s else s) s [0 ..< 8]"

definition timerIsr :: "state \<Rightarrow> state" where
  "timerIsr s =
     (let s1 = s\<lparr>clock_tick := clock_tick s + 1\<rparr>
      in if off s1 < clock_tick s1 then (all_off s1)\<lparr>clock_tick := off s1\<rparr>
         else drive_due False (drive_due True s1))"

section \<open>The Zero-Cross Synchronizer: \<open>zero_cross_int\<close>\<close>

definition zero_cross_int :: "state \<Rightarrow> state" where
  "zero_cross_int s =
     (let s1 = s\<lparr>previous_zero_cross := TCNT1 s\<rparr>
      in if TCNT1 s1 < 1000 then s1
         else (digitalWrite led False (s1\<lparr>clock_tick := 0, next_command := 0, toggly_State := False\<rparr>))
                \<lparr>OCR1A := commands s1 0, TCNT1 := 0\<rparr>)"

section \<open>The state after \<open>setup\<close>\<close>

text \<open>
  The initial values of the globals, \<open>lux[i] = off\<close> from \<open>setup\<close>, the compare
  register as \<open>initialize_timer1\<close> leaves it, all outputs LOW.
\<close>

definition power_on :: state where
  "power_on =
     \<lparr>lux = (\<lambda>i. 95), clock_tick = 0, delay_time = 100, low = 85, high = 45, off = 95,
      commands = (\<lambda>i. 0), toggly_State = False, next_command = 0, previous_zero_cross = 0,
      t = 0, TCNT1 = 0, OCR1A = 166, pins = (\<lambda>p. False), trace = []\<rparr>"

section \<open>States used to exercise the handlers\<close>

text \<open>
  The timer hardware: the counter runs until it equals the compare register, which raises
  the compare interrupt.
\<close>

definition compare_match :: "state \<Rightarrow> state" where
  "compare_match s = s\<lparr>TCNT1 := OCR1A s\<rparr>"

text \<open>
  The state that one iteration of \<open>loop\<close> publishes from \<open>power_on\<close> for the all-zero
  brightness vector, and the state in which the dispatcher is then entered first: an
  accepted zero crossing (at counter 20000), then the compare match on \<open>commands[0]\<close>.
\<close>

definition dark_state :: state where
  "dark_state =
     power_on\<lparr>t := 1,
       lux := (\<lambda>i. if i < 8 then 14110 else 95),
       commands := (\<lambda>i. if i < 8 then [14104, 14105, 14106, 14107, 14108, 14109, 14110, 14111] ! i else 0)\<rparr>"

definition dark_match :: state where
  "dark_match = compare_match (zero_cross_int (dark_state\<lparr>TCNT1 := 20000\<rparr>))"

text \<open>
  The state published from \<open>power_on\<close> after the commands \<open>h\<close>, \<open>h\<close> (\<open>low\<close> is 105) for
  the brightness vector \<open>[0, 1/8, 1, 1, 1, 1, 1, 1]\<close>, and the state in which the
  dispatcher is entered for the second time in the following half cycle: the first
  invocation has fired the six entries at tick 7464, the counter has reached the entry
  of channel 1.
\<close>

definition late_state :: state where
  "late_state =
     power_on\<lparr>low := 105, t := 1,
       lux := (\<lambda>i. if i < 8 then [17430, 16185, 7470, 7470, 7470, 7470, 7470, 7470] ! i else 95),
       commands := (\<lambda>i. if i < 8 then [7466, 7467, 7468, 7469, 7470, 7471, 16185, 17424] ! i else 0)\<rparr>"

definition late_match :: state where
  "late_match =
     late_state\<lparr>previous_zero_cross := 20000, next_command := 6, OCR1A := 16185, TCNT1 := 16185,
       pins := (\<lambda>p. p = 13),
       trace := [(13, False), (13, True),
                 (7, True), (6, True), (5, True), (4, True), (3, True), (10, True),
                 (7, False), (6, False), (5, False), (4, False), (3, False), (10, False)]\<rparr>"




section \<open>The states the program reaches\<close>


section \<open>Lemmas on the command interface\<close>

lemma serial_command_high: "high (serial_command c s) = high s"
  by (simp add: serial_command_def)

lemma serialEvent_high: "high (serialEvent cs s) = high s"
  by (induction cs arbitrary: s) (simp_all add: serial_command_high)

lemma serial_command_keeps: "lux (serial_command c s) = lux s" "commands (serial_command c s) = commands s"
  by (simp_all add: serial_command_def)

lemma serialEvent_keeps: "lux (serialEvent cs s) = lux s \<and> commands (serialEvent cs s) = commands s"
  by (induction cs arbitrary: s) (simp_all add: serial_command_keeps)

lemma queue_serialEvent: "queue (serialEvent cs s) = queue s"
  by (simp add: queue_def serialEvent_keeps)

section \<open>Lemmas on the selection sort\<close>

lemma find_min_scan:
  "i < n \<Longrightarrow> foldl (min_step xs) (xs ! i, i) [i + 1 ..< n] = (m, mi) \<Longrightarrow>
   m = xs ! mi \<and> i \<le> mi \<and> mi < n \<and> (\<forall>j. i \<le> j \<and> j < n \<longrightarrow> sint m \<le> sint (xs ! j))"
proof (induction n arbitrary: m mi)
  case 0
  then show ?case by simp
next
  case (Suc n)
  show ?case
  proof (cases "i < n")
    case False
    with Suc.prems have "n = i" by simp
    with Suc.prems show ?thesis by (auto simp: le_less_Suc_eq)
  next
    case True
    obtain m0 mi0 where f: "foldl (min_step xs) (xs ! i, i) [i + 1 ..< n] = (m0, mi0)"
      by (cases "foldl (min_step xs) (xs ! i, i) [i + 1 ..< n]") 
    from Suc.IH [OF True f] have ih: "m0 = xs ! mi0" "i \<le> mi0" "mi0 < n"
      "\<forall>j. i \<le> j \<and> j < n \<longrightarrow> sint m0 \<le> sint (xs ! j)" by auto
    from True have "[i + 1 ..< Suc n] = [i + 1 ..< n] @ [n]" by simp
    with Suc.prems f have st: "min_step xs (m0, mi0) n = (m, mi)" by simp
    show ?thesis
    proof (cases "sint (xs ! n) < sint m0")
      case True
      with st have "m = xs ! n" "mi = n" by (auto simp: min_step_def)
      with True ih \<open>i < n\<close> show ?thesis by (auto simp: less_Suc_eq) 
    next
      case False
      with st have "m = m0" "mi = mi0" by (auto simp: min_step_def)
      with False ih show ?thesis by (auto simp: less_Suc_eq)
    qed
  qed
qed

lemma find_min_props:
  assumes "i < 8"
  shows "i \<le> snd (find_min xs i) \<and> snd (find_min xs i) < 8 \<and>
     (\<forall>j. i \<le> j \<and> j < 8 \<longrightarrow> sint (xs ! snd (find_min xs i)) \<le> sint (xs ! j))"
proof -
  obtain m mi where f: "find_min xs i = (m, mi)" by (cases "find_min xs i")
  then have "foldl (min_step xs) (xs ! i, i) [i + 1 ..< 8] = (m, mi)"
    by (simp add: find_min_def)
  from find_min_scan [OF assms this] f show ?thesis by auto
qed

lemma sort_step_length: "length (sort_step xs i) = length xs"
  by (simp add: sort_step_def Let_def)

lemma sort_step_mset:
  assumes "length xs = 8" "i < 8"
  shows "mset (sort_step xs i) = mset xs"
proof -
  from find_min_props [OF assms(2), of xs] have "snd (find_min xs i) < length xs"
    using assms(1) by simp
  moreover have "i < length xs" using assms by simp
  ultimately show ?thesis
    by (simp add: sort_step_def Let_def mset_swap)
qed

lemma sort_step_nth:
  assumes "length xs = 8" "i < 8" "b < 8"
  shows "sort_step xs i ! b =
     (if b = snd (find_min xs i) then xs ! i else if b = i then xs ! snd (find_min xs i) else xs ! b)"
  using assms find_min_props [OF assms(2), of xs]
  by (auto simp: sort_step_def Let_def nth_list_update)

lemma sort_step_sorted_upto:
  assumes len: "length ys = 8" and k: "k < 8" and inv: "sorted_upto k ys"
  shows "sorted_upto (Suc k) (sort_step ys k)"
  unfolding sorted_upto_def
proof (intro allI impI)
  fix a b assume ab: "a < Suc k \<and> a < b \<and> b < 8"
  let ?mi = "snd (find_min ys k)"
  from find_min_props [OF k, of ys] have mi: "k \<le> ?mi" "?mi < 8"
    and least: "\<And>j. k \<le> j \<Longrightarrow> j < 8 \<Longrightarrow> sint (ys ! ?mi) \<le> sint (ys ! j)" by auto
  from ab have a8: "a < 8" by simp
  have nb: "sort_step ys k ! b = (if b = ?mi then ys ! k else if b = k then ys ! ?mi else ys ! b)"
    using sort_step_nth [OF len k] ab by simp
  have na: "sort_step ys k ! a = (if a = ?mi then ys ! k else if a = k then ys ! ?mi else ys ! a)"
    using sort_step_nth [OF len k a8] by simp
  show "sint (sort_step ys k ! a) \<le> sint (sort_step ys k ! b)"
  proof (cases "a < k")
    case True
    with mi have "sort_step ys k ! a = ys ! a" using na by auto
    moreover have "\<And>c. a < c \<Longrightarrow> c < 8 \<Longrightarrow> sint (ys ! a) \<le> sint (ys ! c)"
      using inv True by (auto simp: sorted_upto_def)
    ultimately show ?thesis using nb ab mi True k
      by (auto split: if_splits) 
  next
    case False
    with ab have ak: "a = k" by simp
    then have "sort_step ys k ! a = ys ! ?mi" using na by auto
    then show ?thesis using nb ab mi k least ak
      by (auto split: if_splits)
  qed
qed

lemma sort_prefix_invariant:
  assumes "length xs = 8" "k \<le> 8"
  shows "length (foldl sort_step xs [0 ..< k]) = 8 \<and>
     mset (foldl sort_step xs [0 ..< k]) = mset xs \<and>
     sorted_upto k (foldl sort_step xs [0 ..< k])"
  using assms(2)
proof (induction k)
  case 0
  then show ?case using assms(1) by (simp add: sorted_upto_def)
next
  case (Suc k)
  then have ih: "length (foldl sort_step xs [0 ..< k]) = 8"
    "mset (foldl sort_step xs [0 ..< k]) = mset xs"
    "sorted_upto k (foldl sort_step xs [0 ..< k])" and k: "k < 8" by auto
  show ?case
    using ih k sort_step_mset [OF ih(1) k] sort_step_sorted_upto [OF ih(1) k ih(3)]
    by (simp add: sort_step_length)
qed

lemma sort_newcommands_props:
  assumes "length xs = 8"
  shows "length (sort_newcommands xs) = 8" "mset (sort_newcommands xs) = mset xs"
    "sorted (map sint (sort_newcommands xs))"
proof -
  from sort_prefix_invariant [OF assms, of 8]
  have a: "length (sort_newcommands xs) = 8" and b: "mset (sort_newcommands xs) = mset xs"
    and c: "sorted_upto 8 (sort_newcommands xs)"
    by (simp_all add: sort_newcommands_def)
  show "length (sort_newcommands xs) = 8" by (rule a)
  show "mset (sort_newcommands xs) = mset xs" by (rule b)
  show "sorted (map sint (sort_newcommands xs))"
    using a c by (auto simp: sorted_iff_nth_mono_less sorted_upto_def)
qed

section \<open>Lemmas on the packing of tick and channel\<close>

lemma lt8_cases: "i < 8 \<Longrightarrow> i = 0 \<or> i = 1 \<or> i = 2 \<or> i = 3 \<or> i = 4 \<or> i = 5 \<or> i = 6 \<or> i = (7::nat)"
  by arith

lemma upt_0_8: "[0 ..< 8] = [0, 1, 2, 3, 4, 5, 6, 7 :: nat]"
  by code_simp






















section \<open>Lemmas on the conversion of brightness to ticks\<close>


lemma float_to_int_Some:
  "float_to_int r = Some v \<longleftrightarrow> - 32768 \<le> trunc r \<and> trunc r \<le> 32767 \<and> v = word_of_int (trunc r)"
  by (auto simp: float_to_int_def)

lemma float_to_int_sint: "float_to_int r = Some v \<Longrightarrow> sint v = trunc r"
  by (auto simp: float_to_int_Some signed_of_int signed_take_bit_int_eq_self)




lemma rounding_fix: "float_rounding rnd \<Longrightarrow> \<bar>n\<bar> \<le> 16777216 \<Longrightarrow> rnd (real_of_int n) = real_of_int n"
  by (simp add: float_rounding_def)

lemma exact_rounding: "float_rounding (\<lambda>r. r)"
  by (simp add: float_rounding_def mono_def)




lemma fire_tick_at_zero:
  assumes r: "float_rounding rnd"
  shows "fire_tick rnd lo hi 0 = real (unat lo) * 166"
proof -
  let ?d = "int (unat lo) - int (unat hi)"
  have lo: "unat lo < 256" using unsigned_less [of lo, where 'a = nat] by simp
  have hi: "unat hi < 256" using unsigned_less [of hi, where 'a = nat] by simp
  have r1: "rnd 1 = 1" using rounding_fix [OF r, of 1] by simp
  have "\<bar>?d\<bar> \<le> 16777216" using lo hi by linarith
  then have rd: "rnd (real_of_int ?d) = real_of_int ?d" by (rule rounding_fix [OF r])
  have hd: "real (unat hi) + real_of_int ?d = real (unat lo)"
    by (simp only: of_int_diff of_int_of_nat_eq)
  have rn: "rnd (real n) = real n" if "n < 256" for n
    using rounding_fix [OF r, of "int n"] that by simp
  have rn166: "rnd (real n * 166) = real n * 166" if "n < 256" for n
    using rounding_fix [OF r, of "int n * 166"] that by simp
  have rl: "rnd (real (unat lo)) = real (unat lo)" by (rule rn [OF lo])
  have rl166: "rnd (real (unat lo) * 166) = real (unat lo) * 166" by (rule rn166 [OF lo])
  have "fire_tick rnd lo hi 0 = rnd (rnd (real (unat hi) + rnd (real_of_int ?d * rnd 1)) * 166)"
    by (simp only: fire_tick_def diff_zero)
  also have "\<dots> = rnd (rnd (real (unat hi) + real_of_int ?d) * 166)"
    by (simp only: r1 mult_1_right rd)
  also have "\<dots> = real (unat lo) * 166" by (simp only: hd rl rl166)
  finally show ?thesis .
qed

section \<open>Lemmas on one iteration of \<open>loop\<close>\<close>

lemma convert_Some: "float_to_int r = Some v \<Longrightarrow> convert ovf r = v"
  by (simp add: convert_def)

lemma fill_result:
  "fill ovf rnd x lo hi is (lx, nc) = (lx', nc') \<Longrightarrow> distinct is \<Longrightarrow> \<forall>i\<in>set is. i < length nc \<Longrightarrow>
   length nc' = length nc \<and>
   (\<forall>i\<in>set is. lx' i = convert ovf (fire_tick rnd lo hi (x i)) \<and> nc' ! i = pack (lx' i) i) \<and>
   (\<forall>i. i \<notin> set is \<longrightarrow> lx' i = lx i \<and> nc' ! i = nc ! i)"
proof (induction "is" arbitrary: lx nc)
  case Nil
  then show ?case by simp
next
  case (Cons i "is")
  let ?v = "convert ovf (fire_tick rnd lo hi (x i))"
  from Cons.prems(1) have rest: "fill ovf rnd x lo hi is (lx(i := ?v), nc[i := pack ?v i]) = (lx', nc')"
    by (simp add: Let_def)
  from Cons.prems have d: "distinct is" "i \<notin> set is" and b: "\<forall>j\<in>set is. j < length (nc[i := pack ?v i])"
    and il: "i < length nc" by auto
  from Cons.IH [OF rest d(1) b] have ih: "length nc' = length nc"
    "\<forall>j\<in>set is. lx' j = convert ovf (fire_tick rnd lo hi (x j)) \<and> nc' ! j = pack (lx' j) j"
    "\<forall>j. j \<notin> set is \<longrightarrow> lx' j = (lx(i := ?v)) j \<and> nc' ! j = nc[i := pack ?v i] ! j"
    by auto
  from ih(3) d(2) il have "lx' i = ?v" "nc' ! i = pack ?v i" by auto
  with ih show ?case by (auto simp: nth_list_update)
qed

lemma publish_apply: "publish nc c i = (if i < 8 then nc ! i else c i)"
proof -
  have "foldl (\<lambda>c i. c(i := nc ! i)) c [0 ..< n] i = (if i < n then nc ! i else c i)" for n
    by (induction n) auto
  then show ?thesis by (simp add: publish_def)
qed

lemma queue_publish:
  "length nc = 8 \<Longrightarrow> queue (s\<lparr>commands := publish nc c\<rparr>) = nc"
proof -
  assume len: "length nc = 8"
  have "map (publish nc c) [0 ..< 8] = map ((!) nc) [0 ..< 8]"
    by (rule map_cong) (auto simp: publish_apply)
  also have "\<dots> = nc" using map_nth [of nc] len by simp
  finally show ?thesis by (simp add: queue_def)
qed


lemma schedule_eq:
  assumes v: "\<forall>i<8. convert ovf (fire_tick rnd (low s) (high s) (x i)) = v i"
  shows "schedule ovf rnd x s =
     s\<lparr>lux := (\<lambda>i. if i < 8 then v i else lux s i),
       commands := (\<lambda>i. if i < 8 then sort_newcommands (map (\<lambda>i. pack (v i) i) [0 ..< 8]) ! i
                         else commands s i)\<rparr>"
proof -
  obtain lx nc where f: "fill ovf rnd x (low s) (high s) [0 ..< 8] (lux s, replicate 8 0) = (lx, nc)"
    by (cases "fill ovf rnd x (low s) (high s) [0 ..< 8] (lux s, replicate 8 0)")
  from fill_result [OF f] have len: "length nc = 8"
    and in8: "\<forall>i<8. lx i = convert ovf (fire_tick rnd (low s) (high s) (x i)) \<and> nc ! i = pack (lx i) i"
    and out8: "\<forall>i. \<not> i < 8 \<longrightarrow> lx i = lux s i"
    by auto
  from in8 v have lv: "\<forall>i<8. lx i = v i" by auto
  have lx: "lx = (\<lambda>i. if i < 8 then v i else lux s i)"
    using lv out8 by (intro ext) simp
  have nc: "nc = map (\<lambda>i. pack (v i) i) [0 ..< 8]"
    by (rule nth_equalityI) (use len in8 lv in auto)
  have p: "publish nc' (commands s) = (\<lambda>i. if i < 8 then nc' ! i else commands s i)" for nc'
    by (intro ext) (simp add: publish_apply)
  from f [unfolded lx nc] show ?thesis by (simp add: schedule_def p)
qed

lemma schedule_result:
  assumes "schedule ovf rnd x s = s'"
  shows "(\<forall>i<8. lux s' i = convert ovf (fire_tick rnd (low s) (high s) (x i))) \<and>
     queue s' = sort_newcommands (packed (lux s'))"
proof -
  obtain lx nc where f: "fill ovf rnd x (low s) (high s) [0 ..< 8] (lux s, replicate 8 0) = (lx, nc)"
    by (cases "fill ovf rnd x (low s) (high s) [0 ..< 8] (lux s, replicate 8 0)")
  with assms have s': "s' = s\<lparr>lux := lx, commands := publish (sort_newcommands nc) (commands s)\<rparr>"
    by (simp add: schedule_def)
  from fill_result [OF f] have len: "length nc = 8"
    and v: "\<forall>i<8. lx i = convert ovf (fire_tick rnd (low s) (high s) (x i)) \<and> nc ! i = pack (lx i) i"
    by auto
  have nc: "nc = packed lx"
    by (rule nth_equalityI) (use len v in \<open>auto simp: packed_def\<close>)
  have "length (sort_newcommands nc) = 8" using len by (rule sort_newcommands_props)
  then have "queue s' = sort_newcommands nc"
    using queue_publish [where nc = "sort_newcommands nc" and s = "s\<lparr>lux := lx\<rparr>" and c = "commands s"] s' by simp
  with v nc s' show ?thesis by simp
qed

lemma loop_result:
  assumes "loop ovf rnd x in1 in2 s = s'"
  shows "(\<forall>i<8. lux s' i = convert ovf (fire_tick rnd (low (serialEvent in1 s)) (high s) (x i))) \<and>
     queue s' = sort_newcommands (packed (lux s'))"
proof -
  let ?s2 = "(serialEvent in1 s)\<lparr>t := (if 1024 \<le> sint (t (serialEvent in1 s) + 1) then 0 else t (serialEvent in1 s) + 1)\<rparr>"
  from assms have s': "s' = serialEvent in2 (schedule ovf rnd x ?s2)"
    by (simp add: loop_def Let_def)
  from schedule_result [OF refl, of ovf rnd x ?s2] s' show ?thesis
    by (simp add: serialEvent_keeps queue_serialEvent serialEvent_high)
qed









lemma sort_dark:
  "sort_newcommands (map (pack 14110) [0 ..< 8]) =
     [14104, 14105, 14106, 14107, 14108, 14109, 14110, 14111]"
  by code_simp

lemma schedule_fits:
  assumes v: "\<forall>i<8. float_to_int (fire_tick rnd (low s) (high s) (x i)) = Some (v i)"
  shows "schedule ovf rnd x s =
     s\<lparr>lux := (\<lambda>i. if i < 8 then v i else lux s i),
       commands := (\<lambda>i. if i < 8 then sort_newcommands (map (\<lambda>i. pack (v i) i) [0 ..< 8]) ! i
                         else commands s i)\<rparr>"
  by (rule schedule_eq) (use v in \<open>simp add: convert_Some\<close>)

lemma loop_dark: "loop ovf (\<lambda>r. r) (\<lambda>i. 0) [] [] power_on = dark_state"
proof -
  have "\<forall>i<8. float_to_int (fire_tick (\<lambda>r. r) (low (power_on\<lparr>t := 1\<rparr>)) (high (power_on\<lparr>t := 1\<rparr>)) ((\<lambda>i. 0) i)) =
      Some ((\<lambda>i. 14110) i)"
    by (simp add: power_on_def fire_tick_def float_to_int_def trunc_def)
  from schedule_fits [OF this]
  have "schedule ovf (\<lambda>r. r) (\<lambda>i. 0) (power_on\<lparr>t := 1\<rparr>) =
      power_on\<lparr>t := 1,
        lux := (\<lambda>i. if i < 8 then 14110 else lux (power_on\<lparr>t := 1\<rparr>) i),
        commands := (\<lambda>i. if i < 8 then sort_newcommands (map (pack 14110) [0 ..< 8]) ! i
                          else commands (power_on\<lparr>t := 1\<rparr>) i)\<rparr>"
    by simp
  also have "lux (power_on\<lparr>t := 1\<rparr>) = (\<lambda>i. 95)" by (simp add: power_on_def)
  also have "commands (power_on\<lparr>t := 1\<rparr>) = (\<lambda>i. 0)" by (simp add: power_on_def)
  finally have "schedule ovf (\<lambda>r. r) (\<lambda>i. 0) (power_on\<lparr>t := 1\<rparr>) = dark_state"
    by (simp only: sort_dark dark_state_def)
  moreover have "(if 1024 \<le> sint (t power_on + 1) then 0 else t power_on + 1) = 1"
    by (simp add: power_on_def)
  ultimately show ?thesis by (simp add: loop_def)
qed

lemma dark_lux: "map (\<lambda>i. sint (lux dark_state i)) [0 ..< 8] =
    [14110, 14110, 14110, 14110, 14110, 14110, 14110, 14110]"
  by (simp add: dark_state_def upt_0_8)

lemma sort_late:
  "sort_newcommands (map (\<lambda>i. pack ([17430, 16185, 7470, 7470, 7470, 7470, 7470, 7470] ! i) i) [0 ..< 8]) =
     [7466, 7467, 7468, 7469, 7470, 7471, 16185, 17424]"
  by code_simp

lemma loop_late:
  "loop ovf (\<lambda>r. r) (\<lambda>i. [0, 1 / 8, 1, 1, 1, 1, 1, 1] ! i) ''hh'' [] power_on = late_state"
proof -
  let ?s = "power_on\<lparr>low := 105, t := 1\<rparr>"
  have "\<forall>i<8. float_to_int (fire_tick (\<lambda>r. r) (low ?s) (high ?s) ((\<lambda>i. [0, 1 / 8, 1, 1, 1, 1, 1, 1] ! i) i)) =
      Some ((\<lambda>i. [17430, 16185, 7470, 7470, 7470, 7470, 7470, 7470] ! i) i)"
  proof (intro allI impI)
    fix i :: nat assume "i < 8"
    then show "float_to_int (fire_tick (\<lambda>r. r) (low ?s) (high ?s) ((\<lambda>i. [0, 1 / 8, 1, 1, 1, 1, 1, 1] ! i) i)) =
      Some ((\<lambda>i. [17430, 16185, 7470, 7470, 7470, 7470, 7470, 7470] ! i) i)"
      by (drule_tac lt8_cases) (auto simp: power_on_def fire_tick_def float_to_int_def trunc_def)
  qed
  from schedule_fits [OF this]
  have "schedule ovf (\<lambda>r. r) (\<lambda>i. [0, 1 / 8, 1, 1, 1, 1, 1, 1] ! i) ?s =
      power_on\<lparr>low := 105, t := 1,
        lux := (\<lambda>i. if i < 8 then [17430, 16185, 7470, 7470, 7470, 7470, 7470, 7470] ! i else lux ?s i),
        commands := (\<lambda>i. if i < 8 then sort_newcommands (map (\<lambda>i. pack ([17430, 16185, 7470, 7470, 7470, 7470, 7470, 7470] ! i) i) [0 ..< 8]) ! i
                          else commands ?s i)\<rparr>"
    by simp
  also have "lux ?s = (\<lambda>i. 95)" by (simp add: power_on_def)
  also have "commands ?s = (\<lambda>i. 0)" by (simp add: power_on_def)
  finally have "schedule ovf (\<lambda>r. r) (\<lambda>i. [0, 1 / 8, 1, 1, 1, 1, 1, 1] ! i) ?s = late_state"
    by (simp only: sort_late late_state_def)
  moreover have "serialEvent ''hh'' power_on = power_on\<lparr>low := 105\<rparr>"
    by (simp add: serial_command_def power_on_def)
  moreover have "(if 1024 \<le> sint (t (power_on\<lparr>low := 105\<rparr>) + 1) then 0 else t (power_on\<lparr>low := 105\<rparr>) + 1) = 1"
    by (simp add: power_on_def)
  ultimately show ?thesis by (simp add: loop_def)
qed









section \<open>Lemmas on the Event Dispatcher\<close>

lemma isr_fire_step:
  "next_command s < 8 \<Longrightarrow> commands s (next_command s) \<le> TCNT1 s + 64 \<Longrightarrow>
   isr_fire s =
     (if 8 \<le> next_command s + 1
      then Inr ((digitalWrite (pin_assignments ! channel_of (commands s (next_command s))) True s)
                  \<lparr>next_command := next_command s + 1\<rparr>)
      else isr_fire ((digitalWrite (pin_assignments ! channel_of (commands s (next_command s))) True s)
                  \<lparr>next_command := next_command s + 1\<rparr>))"
  by (subst isr_fire.simps) (simp add: Let_def digitalWrite_def)

lemma isr_fire_stop:
  "next_command s < 8 \<Longrightarrow> \<not> commands s (next_command s) \<le> TCNT1 s + 64 \<Longrightarrow> isr_fire s = Inr s"
  by (subst isr_fire.simps) simp

lemma isr_fire_outside: "\<not> next_command s < 8 \<Longrightarrow> isr_fire s = Inl OutOfBounds"
  by (subst isr_fire.simps) simp

lemma isr_fire_returns:
  "next_command s < 8 \<Longrightarrow>
   \<exists>s1. isr_fire s = Inr s1 \<and> commands s1 = commands s \<and> TCNT1 s1 = TCNT1 s \<and> OCR1A s1 = OCR1A s \<and>
     next_command s \<le> next_command s1 \<and> next_command s1 \<le> 8 \<and> (\<exists>ws. trace s1 = trace s @ ws)"
proof (induction s rule: isr_fire.induct)
  case (1 s)
  show ?case
  proof (cases "commands s (next_command s) \<le> TCNT1 s + 64")
    case False
    with "1.prems" show ?thesis by (simp add: isr_fire_stop)
  next
    case True
    let ?s' = "(digitalWrite (pin_assignments ! channel_of (commands s (next_command s))) True s)
                  \<lparr>next_command := next_command s + 1\<rparr>"
    show ?thesis
    proof (cases "8 \<le> next_command s + 1")
      case True
      with \<open>commands s (next_command s) \<le> TCNT1 s + 64\<close> "1.prems" show ?thesis
        by (simp add: isr_fire_step digitalWrite_def)
    next
      case False
      then have n: "next_command ?s' < 8" by simp
      have "\<not> 8 \<le> next_command ?s'" using False by simp
      from "1.IH" [OF "1.prems" True refl this n]
      obtain s1 where s1: "isr_fire ?s' = Inr s1" "commands s1 = commands ?s'" "TCNT1 s1 = TCNT1 ?s'"
        "OCR1A s1 = OCR1A ?s'"
        "next_command ?s' \<le> next_command s1" "next_command s1 \<le> 8" "\<exists>ws. trace s1 = trace ?s' @ ws"
        by blast
      from s1(7) have "\<exists>ws. trace s1 = trace s @ ws" by (auto simp: digitalWrite_def)
      with s1 False True "1.prems" show ?thesis
        by (simp add: isr_fire_step digitalWrite_def)
    qed
  qed
qed

lemma isr_fire_fires:
  assumes "next_command s < 8" "commands s (next_command s) \<le> TCNT1 s + 64"
  shows "\<exists>s1. isr_fire s = Inr s1 \<and>
     (pin_assignments ! channel_of (commands s (next_command s)), True) \<in> set (trace s1)"
proof -
  let ?p = "pin_assignments ! channel_of (commands s (next_command s))"
  let ?s' = "(digitalWrite ?p True s)\<lparr>next_command := next_command s + 1\<rparr>"
  have t: "(?p, True) \<in> set (trace ?s')" by (simp add: digitalWrite_def)
  show ?thesis
  proof (cases "8 \<le> next_command s + 1")
    case True
    with assms t show ?thesis by (simp add: isr_fire_step)
  next
    case False
    then have "next_command ?s' < 8" by simp
    from isr_fire_returns [OF this] obtain s1 ws where "isr_fire ?s' = Inr s1" "trace s1 = trace ?s' @ ws"
      by blast
    with assms t False show ?thesis by (simp add: isr_fire_step)
  qed
qed

lemma isr_release_fields:
  "next_command (isr_release f s) = next_command s \<and> commands (isr_release f s) = commands s \<and>
   TCNT1 (isr_release f s) = TCNT1 s \<and> OCR1A (isr_release f s) = OCR1A s"
proof -
  have "next_command (foldl (\<lambda>s i. digitalWrite (pin_assignments ! channel_of (commands s i)) False s) s ks) = next_command s \<and>
     commands (foldl (\<lambda>s i. digitalWrite (pin_assignments ! channel_of (commands s i)) False s) s ks) = commands s \<and>
     TCNT1 (foldl (\<lambda>s i. digitalWrite (pin_assignments ! channel_of (commands s i)) False s) s ks) = TCNT1 s \<and>
     OCR1A (foldl (\<lambda>s i. digitalWrite (pin_assignments ! channel_of (commands s i)) False s) s ks) = OCR1A s" for ks
    by (induction ks arbitrary: s) (simp_all add: digitalWrite_def)
  then show ?thesis by (simp add: isr_release_def)
qed


lemma isr_fire_consumes_all:
  "next_command s < 8 \<Longrightarrow> \<forall>k. next_command s \<le> k \<and> k < 8 \<longrightarrow> commands s k \<le> TCNT1 s + 64 \<Longrightarrow>
   \<exists>s1. isr_fire s = Inr s1 \<and> next_command s1 = 8"
proof (induction s rule: isr_fire.induct)
  case (1 s)
  from "1.prems" have due: "commands s (next_command s) \<le> TCNT1 s + 64" by simp
  let ?s' = "(digitalWrite (pin_assignments ! channel_of (commands s (next_command s))) True s)
                \<lparr>next_command := next_command s + 1\<rparr>"
  show ?case
  proof (cases "8 \<le> next_command s + 1")
    case True
    with "1.prems"(1) have "next_command s + 1 = 8" by simp
    with due "1.prems"(1) show ?thesis by (simp add: isr_fire_step)
  next
    case False
    then have n: "next_command ?s' < 8" by simp
    have nb: "\<not> 8 \<le> next_command ?s'" using False by simp
    have "\<forall>k. next_command ?s' \<le> k \<and> k < 8 \<longrightarrow> commands ?s' k \<le> TCNT1 ?s' + 64"
      using "1.prems"(2) by (simp add: digitalWrite_def)
    from "1.IH" [OF "1.prems"(1) due refl nb n this] False due "1.prems"(1)
    show ?thesis by (simp add: isr_fire_step)
  qed
qed

text \<open>
  Whenever every pending entry is due within 64 ticks, the handler consumes the whole
  queue and then reads \<open>commands[8]\<close>.
\<close>

lemma ISR_consumes_all:
  assumes "next_command s < 8" "\<forall>k. next_command s \<le> k \<and> k < 8 \<longrightarrow> commands s k \<le> TCNT1 s + 64"
  shows "ISR_TIMER1_COMPA s = Inl OutOfBounds"
proof -
  let ?s0 = "digitalWrite led (next_command s mod 2 = 0) s"
  have "next_command ?s0 < 8" "\<forall>k. next_command ?s0 \<le> k \<and> k < 8 \<longrightarrow> commands ?s0 k \<le> TCNT1 ?s0 + 64"
    using assms by (simp_all add: digitalWrite_def)
  from isr_fire_consumes_all [OF this] obtain s1 where "isr_fire ?s0 = Inr s1" "next_command s1 = 8"
    by blast
  then show ?thesis by (simp add: ISR_TIMER1_COMPA_def Let_def isr_release_fields)
qed





lemma dark_match_fields:
  "TCNT1 dark_match = 14104" "next_command dark_match = 0" "OCR1A dark_match = 14104"
  "commands dark_match = commands dark_state" "trace dark_match = [(13, False)]"
  by (simp_all add: dark_match_def compare_match_def zero_cross_int_def dark_state_def power_on_def
      digitalWrite_def led_def)

lemma dark_cursor:
  "map_sum (\<lambda>e. e) next_command (isr_fire (digitalWrite led True dark_match)) = Inr 8"
  by (simp add: dark_match_def compare_match_def zero_cross_int_def dark_state_def power_on_def
      digitalWrite_def led_def isr_fire_step isr_fire_stop isr_fire_outside channel_of_def
      pin_assignments_def)

lemma dark_fire_led:
  "map_sum (\<lambda>e. e) channel_levels (isr_fire (digitalWrite led True dark_match)) =
     Inr [True, True, True, True, True, True, True, True]"
  by (simp add: dark_match_def compare_match_def zero_cross_int_def dark_state_def power_on_def
      digitalWrite_def led_def isr_fire_step isr_fire_stop isr_fire_outside channel_of_def
      pin_assignments_def channel_levels_def)

lemma dark_isr: "ISR_TIMER1_COMPA dark_match = Inl OutOfBounds"
  by (simp add: ISR_TIMER1_COMPA_def isr_release_def dark_match_def compare_match_def zero_cross_int_def dark_state_def power_on_def
      digitalWrite_def led_def isr_fire_step isr_fire_stop isr_fire_outside channel_of_def
      pin_assignments_def channel_levels_def)

lemma late_reached:
  "map_sum (\<lambda>e. e) compare_match
     (ISR_TIMER1_COMPA (compare_match (zero_cross_int (late_state\<lparr>TCNT1 := 20000\<rparr>)))) =
   Inr late_match"
  by (auto simp add: ISR_TIMER1_COMPA_def isr_release_def late_match_def late_state_def power_on_def
      compare_match_def zero_cross_int_def
      digitalWrite_def led_def isr_fire_step isr_fire_stop isr_fire_outside channel_of_def
      pin_assignments_def fun_eq_iff upt_rec)

lemma late_isr:
  "166 * uint (off late_match) = 15770 \<and> uint (TCNT1 late_match) = 16185 \<and>
   map_sum (\<lambda>e. e) (\<lambda>s. (TCNT1 s, OCR1A s, next_command s, drop 14 (trace s)))
     (ISR_TIMER1_COMPA late_match) =
     Inr (16185, 17424, 7, [(13, True), (8, True), (8, False)])"
  by (simp add: ISR_TIMER1_COMPA_def isr_release_def late_match_def late_state_def power_on_def
      digitalWrite_def led_def isr_fire_step isr_fire_stop isr_fire_outside channel_of_def
      pin_assignments_def)



section \<open>Lemmas on the states the program reaches\<close>





section \<open>Lemmas on the polling handler\<close>

lemma all_off_levels:
  "channel_levels (all_off s) = [False, False, False, False, False, False, False, False]"
  by (simp add: all_off_def channel_levels_def pin_assignments_def digitalWrite_def upt_0_8)

lemma all_off_fields: "clock_tick (all_off s) = clock_tick s \<and> off (all_off s) = off s"
proof -
  have "clock_tick (foldl (\<lambda>s i. digitalWrite (pin_assignments ! i) False s) s ks) = clock_tick s \<and>
     off (foldl (\<lambda>s i. digitalWrite (pin_assignments ! i) False s) s ks) = off s" for ks
    by (induction ks arbitrary: s) (simp_all add: digitalWrite_def)
  then show ?thesis by (simp add: all_off_def)
qed

text \<open>
  \<open>timerIsr\<close> does have the loss-of-sync fallback: once its counter \<open>clock_tick\<close> has
  passed \<open>off\<close>, all eight channel outputs are LOW and the counter is held at \<open>off\<close>.
\<close>

lemma timerIsr_fallback:
  "off s < clock_tick s + 1 \<Longrightarrow>
   channel_levels (timerIsr s) = [False, False, False, False, False, False, False, False] \<and>
   clock_tick (timerIsr s) = off s"
proof -
  assume a: "off s < clock_tick s + 1"
  have c: "channel_levels (s'\<lparr>clock_tick := v\<rparr>) = channel_levels s'" for s' v
    by (simp add: channel_levels_def)
  from a show ?thesis by (simp add: timerIsr_def Let_def c all_off_levels all_off_fields)
qed

section \<open>The claims about the Schedule Builder\<close>






text \<open>
  C7, as stated: for the all-zero brightness vector every fire tick is at or beyond the
  \<open>off\<close> threshold and no channel fires. It fails from \<open>power_on\<close>: every \<open>lux[i]\<close>
  is 14110 (85 hundredths of a half cycle), before the threshold, which is at 95
  hundredths (15770 ticks); and at the compare match on the first entry, at counter
  14104, the loop of the dispatcher drives all eight channel outputs HIGH.
\<close>

theorem all_zero_brightness_fires:
  "loop low16 (\<lambda>r. r) (\<lambda>i. 0) [] [] power_on = dark_state \<and>
   map (\<lambda>i. sint (lux dark_state i)) [0 ..< 8] =
     [14110, 14110, 14110, 14110, 14110, 14110, 14110, 14110] \<and>
   166 * uint (off dark_state) = 15770 \<and>
   uint (TCNT1 dark_match) = 14104 \<and>
   map_sum (\<lambda>e. e) channel_levels (isr_fire (digitalWrite led True dark_match)) =
     Inr [True, True, True, True, True, True, True, True]"
  using loop_dark dark_lux dark_fire_led dark_match_fields(1)
  by (simp add: dark_state_def power_on_def)

text \<open>
  C7, amended: for the all-zero brightness vector every \<open>lux[i]\<close> is the conversion of
  \<open>low * 166\<close>, which is \<open>low * 166\<close> itself whenever that fits the 16-bit \<open>int\<close>
  (\<open>low\<close> at most 197; 14110 with \<open>low = 85\<close>), and the dispatcher fires the channel of
  every entry of the published queue once the counter is within 64 ticks of the entry:
  the channels are fired late in the half cycle, not kept off.
\<close>

theorem all_zero_brightness_latest_tick:
  assumes r: "float_rounding rnd" and x: "\<forall>i<8. x i = 0"
  shows "(\<forall>i<8. lux (loop ovf rnd x in1 in2 s) i =
          convert ovf (real (unat (low (serialEvent in1 s))) * 166)) \<and>
     (unat (low (serialEvent in1 s)) \<le> 197 \<longrightarrow>
        (\<forall>i<8. sint (lux (loop ovf rnd x in1 in2 s) i) = 166 * uint (low (serialEvent in1 s)))) \<and>
     (\<forall>s0. commands s0 = commands (loop ovf rnd x in1 in2 s) \<and> next_command s0 < 8 \<and>
           commands s0 (next_command s0) \<le> TCNT1 s0 + 64 \<longrightarrow>
        (\<exists>s1. isr_fire s0 = Inr s1 \<and>
           (pin_assignments ! channel_of (commands (loop ovf rnd x in1 in2 s) (next_command s0)), True)
             \<in> set (trace s1)))"
proof (intro conjI allI impI)
  let ?lo = "low (serialEvent in1 s)"
  have v: "lux (loop ovf rnd x in1 in2 s) i = convert ovf (real (unat ?lo) * 166)" if "i < 8" for i
    using loop_result [OF refl, of ovf rnd x in1 in2 s] that x
    by (simp add: fire_tick_at_zero [OF r])
  {
    fix i :: nat assume "i < 8"
    then show "lux (loop ovf rnd x in1 in2 s) i = convert ovf (real (unat ?lo) * 166)" by (rule v)
  }
  {
    fix i :: nat assume lo: "unat ?lo \<le> 197" and i: "i < 8"
    have e: "real (unat ?lo) * 166 = real_of_int (166 * uint ?lo)" by simp
    have t: "trunc (real_of_int (166 * uint ?lo)) = 166 * uint ?lo"
      by (simp only: trunc_def floor_of_int ceiling_of_int if_cancel)
    from lo have "int (unat ?lo) \<le> 197" by linarith
    then have "uint ?lo \<le> 197" by simp
    moreover have "0 \<le> uint ?lo" by simp
    ultimately have b: "- 32768 \<le> 166 * uint ?lo \<and> 166 * uint ?lo \<le> 32767" by linarith
    have f: "float_to_int (real (unat ?lo) * 166) = Some (word_of_int (166 * uint ?lo))"
      unfolding e by (simp only: float_to_int_def t b simp_thms if_True)
    have "sint (lux (loop ovf rnd x in1 in2 s) i) = sint (convert ovf (real (unat ?lo) * 166))"
      by (simp only: v [OF i])
    also have "\<dots> = trunc (real (unat ?lo) * 166)"
      by (simp only: convert_Some [OF f] float_to_int_sint [OF f])
    also have "\<dots> = 166 * uint ?lo" by (simp only: e t)
    finally show "sint (lux (loop ovf rnd x in1 in2 s) i) = 166 * uint ?lo" .
  }
next
  fix s0 :: state
  assume a: "commands s0 = commands (loop ovf rnd x in1 in2 s) \<and> next_command s0 < 8 \<and>
           commands s0 (next_command s0) \<le> TCNT1 s0 + 64"
  then have c: "commands s0 = commands (loop ovf rnd x in1 in2 s)" and n: "next_command s0 < 8"
    and d: "commands s0 (next_command s0) \<le> TCNT1 s0 + 64" by blast+
  from isr_fire_fires [OF n d]
  show "\<exists>s1. isr_fire s0 = Inr s1 \<and>
           (pin_assignments ! channel_of (commands (loop ovf rnd x in1 in2 s) (next_command s0)), True)
             \<in> set (trace s1)"
    by (simp only: c)
qed

theorem all_zero_brightness_latest_tick_witness:
  "float_rounding (\<lambda>r. r) \<and>
   loop low16 (\<lambda>r. r) (\<lambda>i. 0) [] [] power_on = dark_state \<and>
   unat (low (serialEvent [] power_on)) \<le> 197 \<and>
   (3::nat) < 8 \<and> sint (lux dark_state 3) = 166 * uint (low (serialEvent [] power_on)) \<and>
   166 * uint (low (serialEvent [] power_on)) = 14110 \<and>
   commands dark_match = commands dark_state \<and> next_command dark_match < 8 \<and>
   commands dark_match (next_command dark_match) \<le> TCNT1 dark_match + 64 \<and>
   (\<exists>s1. isr_fire dark_match = Inr s1 \<and>
      (pin_assignments ! channel_of (commands dark_state (next_command dark_match)), True) \<in> set (trace s1))"
proof -
  have x: "\<forall>i<8. (\<lambda>i::nat. 0::real) i = 0" by simp
  have i: "(3::nat) < 8" by simp
  have d: "commands dark_match = commands dark_state \<and> next_command dark_match < 8 \<and>
      commands dark_match (next_command dark_match) \<le> TCNT1 dark_match + 64"
    by (simp add: dark_match_fields) (simp add: dark_state_def)
  have v: "166 * uint (low (serialEvent [] power_on)) = 14110" by (simp add: power_on_def)
  have w: "unat (low (serialEvent [] power_on)) \<le> 197" by (simp add: power_on_def)
  note t = all_zero_brightness_latest_tick [OF exact_rounding x, where ovf = low16 and ?in1.0 = "[]"
      and ?in2.0 = "[]" and s = power_on, unfolded loop_dark]
  from t i w have "sint (lux dark_state 3) = 166 * uint (low (serialEvent [] power_on))" by blast
  moreover from t d have "\<exists>s1. isr_fire dark_match = Inr s1 \<and>
      (pin_assignments ! channel_of (commands dark_state (next_command dark_match)), True) \<in> set (trace s1)"
    by blast
  ultimately show ?thesis using exact_rounding loop_dark [of low16] i d v w by blast
qed






section \<open>The claims about the Event Dispatcher\<close>

text \<open>
  C3, on the code: the dispatcher has no loss-of-sync fallback. \<open>late_match\<close> is
  reached from \<open>power_on\<close> by one iteration of \<open>loop\<close>, a zero crossing and one
  invocation of the dispatcher; in it the counter is at 16185, past the \<open>off\<close> threshold
  (95 hundredths of a half cycle, 15770 ticks; 95 as a raw number). The handler drives
  the LED pin, fires channel 1 (pin 8 HIGH, then LOW), writes no other channel output,
  leaves the counter at 16185 and arms the compare register for the next entry.
\<close>

theorem isr_sync_loss_not_handled:
  "loop low16 (\<lambda>r. r) (\<lambda>i. [0, 1 / 8, 1, 1, 1, 1, 1, 1] ! i) ''hh'' [] power_on = late_state \<and>
   map_sum (\<lambda>e. e) compare_match
     (ISR_TIMER1_COMPA (compare_match (zero_cross_int (late_state\<lparr>TCNT1 := 20000\<rparr>)))) =
     Inr late_match \<and>
   166 * uint (off late_match) = 15770 \<and> uint (TCNT1 late_match) = 16185 \<and>
   map_sum (\<lambda>e. e) (\<lambda>s. (TCNT1 s, OCR1A s, next_command s, drop 14 (trace s)))
     (ISR_TIMER1_COMPA late_match) =
     Inr (16185, 17424, 7, [(13, True), (8, True), (8, False)])"
  using loop_late late_reached late_isr by simp

text \<open>
  C4, on the code: when the handler has consumed the last entry it arms the compare
  register from \<open>commands[8]\<close>, outside the array. In \<open>dark_match\<close>, the first
  invocation after the all-zero schedule was published, all eight entries are due at
  once: the loop ends with \<open>next_command = 8\<close> and the read that re-arms is out of
  bounds.
\<close>

theorem isr_rearm_reads_past_queue:
  "loop low16 (\<lambda>r. r) (\<lambda>i. 0) [] [] power_on = dark_state \<and>
   next_command dark_match = 0 \<and> TCNT1 dark_match = 14104 \<and>
   map_sum (\<lambda>e. e) next_command (isr_fire (digitalWrite led True dark_match)) = Inr 8 \<and>
   ISR_TIMER1_COMPA dark_match = Inl OutOfBounds"
  using loop_dark dark_match_fields(1,2) dark_cursor dark_isr by simp

section \<open>The claims about the Zero-Cross Synchronizer\<close>

text \<open>
  C5, as stated: an edge below the debounce threshold changes no state at all. It fails
  500 ticks after power-on: the handler stores the counter in \<open>previous_zero_cross\<close>
  before it tests the threshold.
\<close>

theorem zero_cross_spurious_changes_state:
  "TCNT1 (power_on\<lparr>TCNT1 := 500\<rparr>) < 1000 \<and>
   zero_cross_int (power_on\<lparr>TCNT1 := 500\<rparr>) \<noteq> power_on\<lparr>TCNT1 := 500\<rparr>"
proof -
  have "previous_zero_cross (zero_cross_int (power_on\<lparr>TCNT1 := 500\<rparr>)) = 500"
    by (simp add: zero_cross_int_def power_on_def)
  moreover have "previous_zero_cross (power_on\<lparr>TCNT1 := 500\<rparr>) = 0"
    by (simp add: power_on_def)
  ultimately have "zero_cross_int (power_on\<lparr>TCNT1 := 500\<rparr>) \<noteq> power_on\<lparr>TCNT1 := 500\<rparr>"
    by auto
  then show ?thesis by (simp add: power_on_def)
qed

text \<open>
  C5, amended: an edge that arrives while the counter is below 1000 records the counter
  in the diagnostic variable \<open>previous_zero_cross\<close> and changes nothing else: counter,
  dispatch cursor, compare register, outputs and every other variable stay as they were.
\<close>

theorem zero_cross_spurious_ignored:
  "TCNT1 s < 1000 \<Longrightarrow> zero_cross_int s = s\<lparr>previous_zero_cross := TCNT1 s\<rparr>"
  by (simp add: zero_cross_int_def)

theorem zero_cross_spurious_ignored_witness:
  "TCNT1 (power_on\<lparr>TCNT1 := 500\<rparr>) < 1000 \<and>
   zero_cross_int (power_on\<lparr>TCNT1 := 500\<rparr>) = power_on\<lparr>TCNT1 := 500, previous_zero_cross := 500\<rparr>"
  using zero_cross_spurious_ignored [of "power_on\<lparr>TCNT1 := 500\<rparr>"]
  by (simp add: power_on_def)



section \<open>The claims about the command interface\<close>

text \<open>
  C9, as stated: some single-character command modifies \<open>high\<close>. It fails: whatever the
  character and the state, processing it leaves \<open>high\<close> as it was (the command \<open>h\<close>
  raises \<open>low\<close>).
\<close>

theorem serial_high_never_modified:
  "\<not> (\<exists>c s. high (serialEvent [c] s) \<noteq> high s)"
  by (simp add: serial_command_def)

text \<open>
  C9, amended: the adjustable parameters are \<open>delay_time\<close>, \<open>low\<close> and \<open>off\<close>. The
  commands \<open>u\<close> and \<open>d\<close> lower and raise \<open>delay_time\<close> by 10, \<open>l\<close> and \<open>h\<close> lower and
  raise \<open>low\<close> by 10, \<open>o\<close> and \<open>f\<close> lower and raise \<open>off\<close> by 10, each wrapping
  around in its unsigned type; no command changes \<open>high\<close>.
\<close>

theorem serial_adjustable_parameters:
  "delay_time (serialEvent [CHR ''u''] s) = delay_time s - 10 \<and>
   delay_time (serialEvent [CHR ''d''] s) = delay_time s + 10 \<and>
   low (serialEvent [CHR ''l''] s) = low s - 10 \<and>
   low (serialEvent [CHR ''h''] s) = low s + 10 \<and>
   off (serialEvent [CHR ''o''] s) = off s - 10 \<and>
   off (serialEvent [CHR ''f''] s) = off s + 10 \<and>
   (\<forall>cs. high (serialEvent cs s) = high s)"
  by (simp add: serial_command_def serialEvent_high)

end
